theory Spec2Isabelle
  imports Main "HOL-Library.Word" "HOL-Library.Sublist"
begin

section \<open>Strings, ordered maps and number formatting\<close>

text \<open>
  A \<^verbatim>\<open>std::string\<close> is a byte sequence: \<^typ>\<open>string\<close>. A \<^verbatim>\<open>long\<close> is taken to be
  64 bits wide (LP64, the platform of \<^verbatim>\<open>poll.h\<close> and \<^verbatim>\<open>unistd.h\<close> the program includes);
  it is read as two's complement with \<^const>\<open>sint\<close>.
\<close>

type_synonym long = "64 word"

definition LONG_MAX :: int where
  "LONG_MAX = 2 ^ 63 - 1"

definition LONG_MIN :: int where
  "LONG_MIN = - (2 ^ 63)"

text \<open>
  \<^verbatim>\<open>std::string::operator<\<close> compares bytewise as unsigned characters, a proper prefix
  being smaller than its extensions.
\<close>

fun string_less :: "string \<Rightarrow> string \<Rightarrow> bool" where
  "string_less [] [] = False"
| "string_less [] (y # ys) = True"
| "string_less (x # xs) [] = False"
| "string_less (x # xs) (y # ys) =
     ((of_char x :: nat) < of_char y \<or> (x = y \<and> string_less xs ys))"

text \<open>
  A \<^verbatim>\<open>std::map<std::string, V>\<close> is an association list whose keys are strictly ascending
  in \<^const>\<open>string_less\<close>: that is the order in which the map is iterated.
  \<open>map_find\<close> is \<^verbatim>\<open>find\<close> (\<open>None\<close> for \<^verbatim>\<open>end()\<close>), \<open>map_assign\<close> is
  \<^verbatim>\<open>m[k] = v\<close>.
\<close>

type_synonym 'v std_map = "(string \<times> 'v) list"

definition map_ordered :: "'v std_map \<Rightarrow> bool" where
  "map_ordered m = sorted_wrt string_less (map fst m)"

fun map_find :: "'v std_map \<Rightarrow> string \<Rightarrow> 'v option" where
  "map_find [] k = None"
| "map_find ((k', v) # m) k = (if k' = k then Some v else map_find m k)"

fun map_assign :: "string \<Rightarrow> 'v \<Rightarrow> 'v std_map \<Rightarrow> 'v std_map" where
  "map_assign k v [] = [(k, v)]"
| "map_assign k v ((k', v') # m) =
     (if k = k' then (k, v) # m
      else if string_less k k' then (k, v) # (k', v') # m
      else (k', v') # map_assign k v m)"

text \<open>\<^verbatim>\<open>std::to_string\<close> on a \<^verbatim>\<open>size_t\<close> and on a \<^verbatim>\<open>long\<close>: decimal, with a minus sign.\<close>

definition digit_char :: "nat \<Rightarrow> char" where
  "digit_char d = ''0123456789'' ! d"

fun to_string_size :: "nat \<Rightarrow> string" where
  "to_string_size n =
     (if n < 10 then [digit_char n]
      else to_string_size (n div 10) @ [digit_char (n mod 10)])"

declare to_string_size.simps [simp del]

definition to_string_long :: "long \<Rightarrow> string" where
  "to_string_long v =
     (if sint v < 0 then CHR ''-'' # to_string_size (nat (- sint v))
      else to_string_size (nat (sint v)))"

section \<open>The C library's strtol in base 10\<close>

text \<open>
  \<^verbatim>\<open>c_str()\<close> hands the bytes up to the first NUL to a C function.
  \<^verbatim>\<open>strtol(s, &end, 10)\<close> skips white space (\<^verbatim>\<open>isspace\<close> in the C locale), reads an optional
  sign and then the longest run of decimal digits. With no digit nothing is converted and
  \<^verbatim>\<open>end\<close> is \<^verbatim>\<open>s\<close>. A value outside the range of \<^verbatim>\<open>long\<close> sets \<^verbatim>\<open>errno\<close> to
  \<^verbatim>\<open>ERANGE\<close> and yields \<^verbatim>\<open>LONG_MAX\<close> or \<^verbatim>\<open>LONG_MIN\<close>. The result is the value, whether
  \<^verbatim>\<open>errno\<close> was set, and the offset of \<^verbatim>\<open>end\<close> from \<^verbatim>\<open>s\<close>.
\<close>

definition c_str :: "string \<Rightarrow> string" where
  "c_str s = takeWhile (\<lambda>c. c \<noteq> CHR 0x00) s"

definition isspace :: "char \<Rightarrow> bool" where
  "isspace c \<longleftrightarrow> c = CHR 0x20 \<or> c = CHR 0x09 \<or> c = CHR 0x0A \<or> c = CHR 0x0B
     \<or> c = CHR 0x0C \<or> c = CHR 0x0D"

definition isdigit :: "char \<Rightarrow> bool" where
  "isdigit c \<longleftrightarrow> 48 \<le> (of_char c :: nat) \<and> (of_char c :: nat) \<le> 57"

fun digits_value :: "int \<Rightarrow> string \<Rightarrow> int" where
  "digits_value acc [] = acc"
| "digits_value acc (c # cs) = digits_value (acc * 10 + (int (of_char c) - 48)) cs"

definition strtol :: "string \<Rightarrow> long \<times> bool \<times> nat" where
  "strtol s =
     (let ws = takeWhile isspace s;
          r1 = dropWhile isspace s;
          neg = (r1 \<noteq> [] \<and> hd r1 = CHR ''-'');
          sign = (if r1 \<noteq> [] \<and> (hd r1 = CHR ''-'' \<or> hd r1 = CHR ''+'') then 1 else 0);
          ds = takeWhile isdigit (drop sign r1);
          v = (if neg then - digits_value 0 ds else digits_value 0 ds);
          end = length ws + sign + length ds
      in if ds = [] then (0, False, 0)
         else if LONG_MAX < v then (word_of_int LONG_MAX, True, end)
         else if v < LONG_MIN then (word_of_int LONG_MIN, True, end)
         else (word_of_int v, False, end))"

section \<open>The parameter tree (CLI.h)\<close>

record NumericConstraint =
  enabled :: bool
  minValue :: long
  maxValue :: long

datatype ParamNode = ParamNode
  (candidates: "string list")
  (children: "(string \<times> ParamNode) list")
  (numeric: NumericConstraint)

section \<open>The validator of makeTreeParamMap\<close>

text \<open>
  \<^verbatim>\<open>parseLong\<close>: \<open>None\<close> is the \<^verbatim>\<open>false\<close> return, \<open>Some parsed\<close> the \<^verbatim>\<open>true\<close> return with
  the value written to \<^verbatim>\<open>outValue\<close>. \<^verbatim>\<open>*end != '\0'\<close> holds when \<^verbatim>\<open>end\<close> stops before
  the end of the C string.
\<close>

definition parseLong :: "string \<Rightarrow> long option" where
  "parseLong value =
     (if value = [] then None
      else (case strtol (c_str value) of
              (parsed, erange, end) \<Rightarrow>
                if erange \<or> end = 0 \<or> end < length (c_str value) then None
                else Some parsed))"

text \<open>
  The loops that build \<^verbatim>\<open>validValues\<close>, \<^verbatim>\<open>currentOptions\<close> and \<^verbatim>\<open>nextOptions\<close>:
  the separator is added only when the text built so far is not empty.
\<close>

fun join_options :: "string \<Rightarrow> string list \<Rightarrow> string" where
  "join_options acc [] = acc"
| "join_options acc (v # vs) =
     join_options ((if acc \<noteq> [] then acc @ '', '' else acc) @ v) vs"

text \<open>
  The numeric check of a node with no candidates (lines 181 to 191): the message returned,
  if any.
\<close>

definition numeric_error :: "ParamNode \<Rightarrow> nat \<Rightarrow> string \<Rightarrow> string option" where
  "numeric_error current i value =
     (if enabled (numeric current) then
        (case parseLong value of
           None \<Rightarrow>
             Some (''Invalid number '' @ [CHR 0x27] @ value @ [CHR 0x27] @ '' at position ''
                   @ to_string_size i)
         | Some parsed \<Rightarrow>
             if sint parsed < sint (minValue (numeric current))
                \<or> sint (maxValue (numeric current)) < sint parsed
             then Some (''Number out of range at position '' @ to_string_size i
                        @ ''. Expected: '' @ to_string_long (minValue (numeric current))
                        @ '' to '' @ to_string_long (maxValue (numeric current)))
             else None)
      else None)"

text \<open>
  The scan \<^verbatim>\<open>for (size_t i = 1; i < args.size(); ++i)\<close>. \<open>n\<close> is \<^verbatim>\<open>args.size()\<close>, the list
  holds \<^verbatim>\<open>args[i]\<close>, \<^verbatim>\<open>args[i+1]\<close>, ... . \<open>Inl\<close> is a \<^verbatim>\<open>return\<close> of a message from inside
  the loop; \<open>Inr\<close> carries \<^verbatim>\<open>current\<close> and \<^verbatim>\<open>lastValueIsLeaf\<close> out of the loop, at its end
  or at its \<^verbatim>\<open>break\<close>. The flag is set to false at the start of every iteration, so a
  \<^verbatim>\<open>continue\<close> passes on the value it has just been given. \<^verbatim>\<open>current\<close> is never null
  (it points into the tree held by the shared pointer), so the null checks have no branch.
\<close>

fun validator_loop ::
  "nat \<Rightarrow> nat \<Rightarrow> string list \<Rightarrow> ParamNode \<Rightarrow> bool \<Rightarrow> string + (ParamNode \<times> bool)" where
  "validator_loop n i [] current lastValueIsLeaf = Inr (current, lastValueIsLeaf)"
| "validator_loop n i (value # rest) current lastValueIsLeaf =
     (if candidates current = [] then
        (case numeric_error current i value of
           Some err \<Rightarrow> Inl err
         | None \<Rightarrow>
             (if children current \<noteq> [] then
                (case map_find (children current) value of
                   Some child \<Rightarrow> validator_loop n (i + 1) rest child False
                 | None \<Rightarrow> validator_loop n (i + 1) rest current True)
              else validator_loop n (i + 1) rest current True))
      else if value \<notin> set (candidates current) then
        Inl (''Invalid value '' @ [CHR 0x27] @ value @ [CHR 0x27] @ '' at position ''
             @ to_string_size i @ ''. Valid values: ''
             @ join_options [] (candidates current))
      else
        (case map_find (children current) value of
           Some child \<Rightarrow> validator_loop n (i + 1) rest child False
         | None \<Rightarrow>
             if i < n - 1
             then Inl (''Too many arguments after '' @ [CHR 0x27] @ value @ [CHR 0x27])
             else Inr (current, True)))"

text \<open>The check after the scan (lines 241 to 266).\<close>

definition missing_check :: "ParamNode \<Rightarrow> bool \<Rightarrow> string" where
  "missing_check current lastValueIsLeaf =
     (if lastValueIsLeaf then []
      else if candidates current \<noteq> [] \<or> children current \<noteq> [] then
        (if candidates current \<noteq> [] then
           ''Missing argument. Expected one of: '' @ join_options [] (candidates current)
         else if children current \<noteq> [] then
           ''Missing argument. Expected: '' @ join_options [] (map fst (children current))
         else [])
      else [])"

definition validator :: "ParamNode \<Rightarrow> string list \<Rightarrow> string" where
  "validator root args =
     (if length args < 2 then ''Missing arguments''
      else (case validator_loop (length args) 1 (drop 1 args) root False of
              Inl err \<Rightarrow> err
            | Inr (current, lastValueIsLeaf) \<Rightarrow> missing_check current lastValueIsLeaf))"

section \<open>The completer of makeTreeParamMap\<close>

text \<open>
  \<^verbatim>\<open>(int)allTokens.size()\<close> converts a 64-bit size to a 32-bit \<^verbatim>\<open>int\<close>: the low 32 bits,
  read as two's complement.
\<close>

definition size_to_int :: "nat \<Rightarrow> int" where
  "size_to_int n = (int n + 2 ^ 31) mod 2 ^ 32 - 2 ^ 31"

text \<open>
  \<^verbatim>\<open>candidate.find(input)\<close>: the first position at which \<^verbatim>\<open>input\<close> occurs in
  \<^verbatim>\<open>candidate\<close>, \<open>None\<close> for \<^verbatim>\<open>npos\<close>.
\<close>

fun str_find :: "string \<Rightarrow> string \<Rightarrow> nat option" where
  "str_find [] pat = (if pat = [] then Some 0 else None)"
| "str_find (c # cs) pat =
     (if take (length pat) (c # cs) = pat then Some 0
      else map_option Suc (str_find cs pat))"

text \<open>
  The walk \<^verbatim>\<open>for (int i = 1; i < paramIndex; ++i)\<close>: \<open>None\<close> is a \<^verbatim>\<open>return {}\<close> from
  inside the loop, \<open>Some current\<close> the node the loop ends on. \<^verbatim>\<open>allTokens[i]\<close> is read
  only after \<^verbatim>\<open>i\<close> was found to be below the converted size.
\<close>

function completer_loop :: "string list \<Rightarrow> int \<Rightarrow> int \<Rightarrow> ParamNode \<Rightarrow> ParamNode option" where
  "completer_loop allTokens paramIndex i current =
     (if i < paramIndex then
        (if size_to_int (length allTokens) \<le> i then None
         else (case map_find (children current) (allTokens ! nat i) of
                 None \<Rightarrow> None
               | Some child \<Rightarrow> completer_loop allTokens paramIndex (i + 1) child))
      else Some current)"
  by pat_completeness auto
termination
  by (relation "measure (\<lambda>(allTokens, paramIndex, i, current). nat (paramIndex - i))") auto

declare completer_loop.simps [simp del]

definition completer :: "ParamNode \<Rightarrow> string list \<Rightarrow> int \<Rightarrow> string \<Rightarrow> string list" where
  "completer root allTokens paramIndex input =
     (if paramIndex < 1 then []
      else (case completer_loop allTokens paramIndex 1 root of
              None \<Rightarrow> []
            | Some current \<Rightarrow>
                filter (\<lambda>candidate. str_find candidate input = Some 0) (candidates current)))"

definition makeTreeParamMap ::
  "ParamNode \<Rightarrow> (string list \<Rightarrow> int \<Rightarrow> string \<Rightarrow> string list) \<times> (string list \<Rightarrow> string)" where
  "makeTreeParamMap root = (completer root, validator root)"

section \<open>The shared prefix of CLI::commandCompletion (CLI.cpp)\<close>

text \<open>
  The inner \<^verbatim>\<open>while\<close> loop counts the leading positions on which \<^verbatim>\<open>prefix\<close>
  (here \<open>pfx\<close>) and \<^verbatim>\<open>candidates[i]\<close> agree; \<^verbatim>\<open>prefix.substr(0, j)\<close> keeps that many
  characters.
\<close>

function common_length :: "string \<Rightarrow> string \<Rightarrow> nat \<Rightarrow> nat" where
  "common_length pfx candidate j =
     (if j < length pfx \<and> j < length candidate \<and> pfx ! j = candidate ! j
      then common_length pfx candidate (j + 1)
      else j)"
  by pat_completeness auto
termination
  by (relation "measure (\<lambda>(pfx, candidate, j). length pfx - j)") auto

declare common_length.simps [simp del]

fun shorten_prefix :: "string \<Rightarrow> string list \<Rightarrow> string" where
  "shorten_prefix pfx [] = pfx"
| "shorten_prefix pfx (candidate # rest) =
     shorten_prefix (take (common_length pfx candidate 0) pfx) rest"

definition completion_prefix :: "string list \<Rightarrow> string" where
  "completion_prefix cands =
     (if length cands = 1 then cands ! 0
      else if 1 < length cands then shorten_prefix (cands ! 0) (drop 1 cands)
      else [])"

section \<open>The command registry (CLI.cpp)\<close>

text \<open>
  A handler is a function of the tokens; what it does is left open (\<open>'e\<close>). The completer
  and the validator of an entry may be null: \<open>None\<close>.
\<close>

record 'e CommandInfo =
  description :: string
  handler :: "string list \<Rightarrow> 'e"
  completer_opt :: "(string list \<Rightarrow> int \<Rightarrow> string \<Rightarrow> string list) option"
  validator_opt :: "(string list \<Rightarrow> string) option"

definition registerCommand ::
  "'e CommandInfo std_map \<Rightarrow> string \<Rightarrow> string \<Rightarrow> (string list \<Rightarrow> 'e)
   \<Rightarrow> (string list \<Rightarrow> int \<Rightarrow> string \<Rightarrow> string list) option
   \<Rightarrow> (string list \<Rightarrow> string) option \<Rightarrow> 'e CommandInfo std_map" where
  "registerCommand commands name descr h c v =
     map_assign name
       \<lparr>description = descr, handler = h, completer_opt = c, validator_opt = v\<rparr> commands"

section \<open>Paths of the tree\<close>

text \<open>
  The node that a sequence of literal values leads to from a node, each value being looked
  up among the children of the node reached so far; \<open>None\<close> when some value is no key
  there.
\<close>

fun node_at :: "ParamNode \<Rightarrow> string list \<Rightarrow> ParamNode option" where
  "node_at current [] = Some current"
| "node_at current (k # ks) =
     (case map_find (children current) k of
        None \<Rightarrow> None
      | Some child \<Rightarrow> node_at child ks)"

section \<open>TreeBuilder (CLI.h)\<close>

text \<open>
  A default-constructed node, as \<^verbatim>\<open>children[key]\<close> creates it for a key that is not
  yet present.
\<close>

definition default_node :: ParamNode where
  "default_node = ParamNode [] [] \<lparr>enabled = False, minValue = 0, maxValue = 0\<rparr>"

text \<open>
  \<open>node_ref\<close> follows \<^verbatim>\<open>current = &current->children[key]\<close> along the path, creating
  the nodes that are missing, and applies the update to the node it arrives at.
\<close>

fun node_ref :: "string list \<Rightarrow> (ParamNode \<Rightarrow> ParamNode) \<Rightarrow> ParamNode \<Rightarrow> ParamNode" where
  "node_ref [] f current = f current"
| "node_ref (key # path) f current =
     ParamNode (candidates current)
       (map_assign key
          (node_ref path f
             (case map_find (children current) key of
                None \<Rightarrow> default_node
              | Some child \<Rightarrow> child))
          (children current))
       (numeric current)"

definition TreeBuilder_root :: "string list \<Rightarrow> ParamNode \<Rightarrow> ParamNode" where
  "TreeBuilder_root cands root = ParamNode cands (children root) (numeric root)"

definition TreeBuilder_node :: "string list \<Rightarrow> string list \<Rightarrow> ParamNode \<Rightarrow> ParamNode" where
  "TreeBuilder_node path cands root =
     node_ref path (\<lambda>current. ParamNode cands (children current) (numeric current)) root"

definition TreeBuilder_numeric :: "string list \<Rightarrow> long \<Rightarrow> long \<Rightarrow> ParamNode \<Rightarrow> ParamNode" where
  "TreeBuilder_numeric path lo hi root =
     node_ref path
       (\<lambda>current. ParamNode [] (children current)
          \<lparr>enabled = True, minValue = lo, maxValue = hi\<rparr>) root"

text \<open>
  The tree of the usage example in CLI.h, here with the two root candidates
  \<^verbatim>\<open>device1\<close> and \<^verbatim>\<open>timeout\<close>, declared through the builder: \<^verbatim>\<open>device1\<close> offers
  \<^verbatim>\<open>light\<close> and \<^verbatim>\<open>sound\<close>, \<^verbatim>\<open>light\<close> offers 0, 1 and 2, and \<^verbatim>\<open>timeout\<close> is a
  number from 1 to 600.
\<close>

definition scenario_tree :: ParamNode where
  "scenario_tree =
     TreeBuilder_numeric [''timeout''] 1 600
       (TreeBuilder_node [''device1'', ''light''] [''0'', ''1'', ''2'']
          (TreeBuilder_node [''device1''] [''light'', ''sound'']
             (TreeBuilder_root [''device1'', ''timeout''] default_node)))"

section \<open>The registry built by the constructor of CLI\<close>

text \<open>
  The constructor registers \<^verbatim>\<open>help\<close>, \<^verbatim>\<open>exit\<close>, \<^verbatim>\<open>quit\<close> and \<^verbatim>\<open>clear\<close>, in this order,
  on the empty map; the three handlers are parameters.
\<close>

definition builtin_commands ::
  "(string list \<Rightarrow> 'e) \<Rightarrow> (string list \<Rightarrow> 'e) \<Rightarrow> (string list \<Rightarrow> 'e)
   \<Rightarrow> 'e CommandInfo std_map" where
  "builtin_commands cmdHelp cmdExit cmdClear =
     registerCommand
       (registerCommand
          (registerCommand
             (registerCommand [] ''help'' ''Show available commands'' cmdHelp None None)
             ''exit'' ''Exit the CLI'' cmdExit None None)
          ''quit'' ''Exit the CLI (alias for exit)'' cmdExit None None)
       ''clear'' ''Clear the screen'' cmdClear None None"

definition no_handler :: "string list \<Rightarrow> unit" where
  "no_handler tokens = ()"

section \<open>Joining with commas\<close>


section \<open>A tree with an empty string among its values\<close>


section \<open>Evaluation of the example tree\<close>

lemma scenario_tree_eq:
  "scenario_tree =
     ParamNode [''device1'', ''timeout'']
       [(''device1'',
           ParamNode [''light'', ''sound'']
             [(''light'',
                 ParamNode [''0'', ''1'', ''2''] []
                   \<lparr>enabled = False, minValue = 0, maxValue = 0\<rparr>)]
             \<lparr>enabled = False, minValue = 0, maxValue = 0\<rparr>),
        (''timeout'', ParamNode [] [] \<lparr>enabled = True, minValue = 1, maxValue = 600\<rparr>)]
       \<lparr>enabled = False, minValue = 0, maxValue = 0\<rparr>"
  by (simp add: scenario_tree_def TreeBuilder_numeric_def TreeBuilder_node_def
      TreeBuilder_root_def default_node_def)

lemma to_string_size_digit: "n < 10 \<Longrightarrow> to_string_size n = [digit_char n]"
  by (simp add: to_string_size.simps)

lemma parseLong_45: "parseLong ''45'' = Some 45"
  by code_simp

lemma parseLong_700: "parseLong ''700'' = Some 700"
  by code_simp

lemma to_string_long_1: "to_string_long 1 = ''1''"
  by code_simp

lemma to_string_long_600: "to_string_long 600 = ''600''"
  by code_simp

section \<open>The validator on the example tree\<close>

text \<open>
  C1. In every tree whose root has the candidates \<^verbatim>\<open>device1\<close> and \<^verbatim>\<open>timeout\<close>, whose
  \<^verbatim>\<open>device1\<close> child has \<^verbatim>\<open>light\<close> among its candidates and a \<^verbatim>\<open>light\<close> child with the
  candidates 0, 1, 2, and whose \<^verbatim>\<open>timeout\<close> child is numeric with the range 1 to 600 (and
  has no child named 45): the arguments \<^verbatim>\<open>device1 light 9\<close> give the invalid-value message
  for position 3 with the valid values 0, 1, 2; \<^verbatim>\<open>timeout 700\<close> gives the out-of-range
  message for position 2 with the range 1 to 600; \<^verbatim>\<open>timeout 45\<close> passes.
\<close>

theorem validator_scenario:
  assumes r: "candidates root = [''device1'', ''timeout'']"
    and d: "map_find (children root) ''device1'' = Some device1"
    and dl: "''light'' \<in> set (candidates device1)"
    and l: "map_find (children device1) ''light'' = Some light"
    and lc: "candidates light = [''0'', ''1'', ''2'']"
    and t: "map_find (children root) ''timeout'' = Some timeout"
    and tc: "candidates timeout = []"
    and tch: "map_find (children timeout) ''45'' = None"
    and tn: "enabled (numeric timeout)" "minValue (numeric timeout) = 1"
      "maxValue (numeric timeout) = 600"
  shows "validator root [''set'', ''device1'', ''light'', ''9''] =
           ''Invalid value '' @ [CHR 0x27] @ ''9'' @ [CHR 0x27]
             @ '' at position 3. Valid values: 0, 1, 2''
    \<and> validator root [''set'', ''timeout'', ''700''] =
           ''Number out of range at position 2. Expected: 1 to 600''
    \<and> validator root [''set'', ''timeout'', ''45''] = []"
proof -
  have dne: "candidates device1 \<noteq> []"
    using dl by auto
  have a: "validator root [''set'', ''device1'', ''light'', ''9''] =
           ''Invalid value '' @ [CHR 0x27] @ ''9'' @ [CHR 0x27]
             @ '' at position 3. Valid values: 0, 1, 2''"
    using r d dl l lc dne
    by (simp add: validator_def to_string_size_digit digit_char_def)
  have b: "validator root [''set'', ''timeout'', ''700''] =
           ''Number out of range at position 2. Expected: 1 to 600''"
    using r t tc tn
    by (simp add: validator_def numeric_error_def parseLong_700 to_string_long_1
        to_string_long_600 to_string_size_digit digit_char_def)
  have c: "validator root [''set'', ''timeout'', ''45''] = []"
    using r t tc tch tn
    by (simp add: validator_def numeric_error_def parseLong_45 missing_check_def)
  from a b c show ?thesis
    by blast
qed

theorem validator_scenario_witness:
  "validator scenario_tree [''set'', ''device1'', ''light'', ''9''] =
           ''Invalid value '' @ [CHR 0x27] @ ''9'' @ [CHR 0x27]
             @ '' at position 3. Valid values: 0, 1, 2''
    \<and> validator scenario_tree [''set'', ''timeout'', ''700''] =
           ''Number out of range at position 2. Expected: 1 to 600''
    \<and> validator scenario_tree [''set'', ''timeout'', ''45''] = []"
  using validator_scenario [of scenario_tree
      "ParamNode [''light'', ''sound'']
         [(''light'', ParamNode [''0'', ''1'', ''2''] []
             \<lparr>enabled = False, minValue = 0, maxValue = 0\<rparr>)]
         \<lparr>enabled = False, minValue = 0, maxValue = 0\<rparr>"
      "ParamNode [''0'', ''1'', ''2''] [] \<lparr>enabled = False, minValue = 0, maxValue = 0\<rparr>"
      "ParamNode [] [] \<lparr>enabled = True, minValue = 1, maxValue = 600\<rparr>"]
  by (simp add: scenario_tree_eq)

section \<open>The joined options\<close>






section \<open>After the scan\<close>

lemma validator_after_scan:
  assumes "2 \<le> length args"
    and "validator_loop (length args) 1 (drop 1 args) root False = Inr (current, leaf)"
  shows "validator root args = missing_check current leaf"
  using assms by (simp add: validator_def)







text \<open>
  A scan that runs through at least one argument and leaves with \<^verbatim>\<open>lastValueIsLeaf\<close>
  false has just descended: the node it ends on is the child that the last argument names
  in the node before it.
\<close>

lemma validator_loop_descended:
  "validator_loop n i xs current leaf = Inr (c, False) \<Longrightarrow> xs \<noteq> [] \<Longrightarrow>
   \<exists>parent. map_find (children parent) (last xs) = Some c"
proof (induction xs arbitrary: i current leaf)
  case Nil
  then show ?case by simp
next
  case (Cons x xs)
  show ?case
  proof (cases "xs = []")
    case True
    then show ?thesis
      using Cons.prems(1)
      by (auto split: if_splits option.splits)
  next
    case False
    then have "\<exists>i' current' leaf'. validator_loop n i' xs current' leaf' = Inr (c, False)"
      using Cons.prems(1)
      by (auto split: if_splits option.splits)
    then show ?thesis
      using Cons.IH False by auto
  qed
qed

text \<open>
  C9. When the scan ends, without a leaf value, on a node that has the numeric constraint
  enabled, no candidates and no children (the scan has descended into it with the last
  argument, and no argument is left for it), the validator returns the empty string: the
  number that the node asks for is not reported as missing.
\<close>

theorem validator_numeric_not_required:
  assumes "2 \<le> length args"
    and "validator_loop (length args) 1 (drop 1 args) root False = Inr (current, False)"
    and "candidates current = []" and "children current = []"
    and "enabled (numeric current)"
  shows "validator root args = []
    \<and> (\<exists>parent. map_find (children parent) (last args) = Some current)"
proof -
  have "validator root args = []"
    using validator_after_scan [OF assms(1,2)] assms(3,4)
    by (simp add: missing_check_def)
  moreover have "drop 1 args \<noteq> []"
    using assms(1) by simp
  then have "\<exists>parent. map_find (children parent) (last (drop 1 args)) = Some current"
    using validator_loop_descended [OF assms(2)] by simp
  moreover have "last (drop 1 args) = last args"
    using assms(1) by simp
  ultimately show ?thesis
    by simp
qed

theorem validator_numeric_not_required_witness:
  "validator scenario_tree [''set'', ''timeout''] = []
   \<and> (\<exists>parent. map_find (children parent) (last [''set'', ''timeout'']) =
         Some (ParamNode [] [] \<lparr>enabled = True, minValue = 1, maxValue = 600\<rparr>))"
  using validator_numeric_not_required [of "[''set'', ''timeout'']" scenario_tree
     "ParamNode [] [] \<lparr>enabled = True, minValue = 1, maxValue = 600\<rparr>"]
  by (simp add: scenario_tree_eq)

section \<open>The shared prefix is the longest common prefix\<close>

lemma longest_common_prefix_Nil2: "longest_common_prefix xs [] = []"
  by (cases xs) simp_all

lemma common_length_take:
  "j \<le> length p \<Longrightarrow> j \<le> length c \<Longrightarrow>
   take (common_length p c j) p = take j p @ longest_common_prefix (drop j p) (drop j c)"
proof (induction p c j rule: common_length.induct)
  case (1 p c j)
  show ?case
  proof (cases "j < length p \<and> j < length c \<and> p ! j = c ! j")
    case True
    have "common_length p c j =
            (if j < length p \<and> j < length c \<and> p ! j = c ! j
             then common_length p c (j + 1) else j)"
      by (rule common_length.simps)
    also have "\<dots> = common_length p c (j + 1)"
      using True by (rule if_P)
    finally have cl: "common_length p c j = common_length p c (j + 1)" .
    from True have jp: "j < length p" and jc: "j < length c" and e: "p ! j = c ! j"
      by blast+
    have dp: "drop j p = p ! j # drop (Suc j) p"
      using jp by (rule Cons_nth_drop_Suc [symmetric])
    have "drop j c = c ! j # drop (Suc j) c"
      using jc by (rule Cons_nth_drop_Suc [symmetric])
    then have dc: "drop j c = p ! j # drop (Suc j) c"
      using e by simp
    have tp: "take (Suc j) p = take j p @ [p ! j]"
      using True by (simp add: take_Suc_conv_app_nth)
    have "take (common_length p c (j + 1)) p =
            take (j + 1) p @ longest_common_prefix (drop (j + 1) p) (drop (j + 1) c)"
      using "1.IH" [OF True] True by simp
    then show ?thesis
      using cl tp by (simp add: dp dc)
  next
    case False
    have "common_length p c j =
            (if j < length p \<and> j < length c \<and> p ! j = c ! j
             then common_length p c (j + 1) else j)"
      by (rule common_length.simps)
    also have "\<dots> = j"
      using False by (rule if_not_P)
    finally have cl: "common_length p c j = j" .
    have "longest_common_prefix (drop j p) (drop j c) = []"
    proof (cases "j < length p \<and> j < length c")
      case True
      then have "drop j p = p ! j # drop (Suc j) p" "drop j c = c ! j # drop (Suc j) c"
        by (simp_all add: Cons_nth_drop_Suc)
      moreover have "p ! j \<noteq> c ! j"
        using True False by blast
      ultimately show ?thesis
        by simp
    next
      case False
      then have "drop j p = [] \<or> drop j c = []"
        by auto
      then show ?thesis
        by (auto simp: longest_common_prefix_Nil2)
    qed
    then show ?thesis
      using cl by simp
  qed
qed

lemma common_length_prefix:
  "take (common_length p c 0) p = longest_common_prefix p c"
  using common_length_take [of 0 p c] by simp

lemma shorten_prefix_sound:
  "prefix (shorten_prefix p cs) p \<and> (\<forall>c \<in> set cs. prefix (shorten_prefix p cs) c)"
proof (induction cs arbitrary: p)
  case Nil
  show ?case by simp
next
  case (Cons c cs)
  let ?q = "longest_common_prefix p c"
  have ih: "prefix (shorten_prefix ?q cs) ?q \<and> (\<forall>d \<in> set cs. prefix (shorten_prefix ?q cs) d)"
    by (rule Cons.IH)
  have "prefix (shorten_prefix ?q cs) p"
    using ih longest_common_prefix_prefix1 prefix_order.trans by blast
  moreover have "prefix (shorten_prefix ?q cs) c"
    using ih longest_common_prefix_prefix2 prefix_order.trans by blast
  ultimately show ?case
    using ih by (simp add: common_length_prefix)
qed

lemma shorten_prefix_longest:
  "prefix s p \<Longrightarrow> \<forall>c \<in> set cs. prefix s c \<Longrightarrow> prefix s (shorten_prefix p cs)"
proof (induction cs arbitrary: p)
  case Nil
  then show ?case by simp
next
  case (Cons c cs)
  have "prefix s (longest_common_prefix p c)"
    using Cons.prems by (simp add: longest_common_prefix_max_prefix)
  then have "prefix s (shorten_prefix (longest_common_prefix p c) cs)"
    using Cons.IH Cons.prems by simp
  then show ?case
    by (simp add: common_length_prefix)
qed

lemma completion_prefix_nonempty:
  "cands \<noteq> [] \<Longrightarrow> completion_prefix cands = shorten_prefix (hd cands) (tl cands)"
proof (cases cands)
  case Nil
  assume "cands \<noteq> []"
  with Nil show ?thesis by simp
next
  case (Cons c cs)
  show ?thesis
    by (cases cs) (simp_all add: Cons completion_prefix_def drop_Suc)
qed

text \<open>
  C7. For a non-empty list of candidates, the prefix computed by the reduction (the first
  candidate, shortened against each further candidate in turn) is a prefix of every
  candidate, and every string that is a prefix of every candidate is a prefix of it, so
  none of them is longer.
\<close>

theorem completion_prefix_longest_common:
  assumes "cands \<noteq> []"
  shows "(\<forall>c \<in> set cands. prefix (completion_prefix cands) c)
    \<and> (\<forall>s. (\<forall>c \<in> set cands. prefix s c) \<longrightarrow>
           prefix s (completion_prefix cands) \<and> length s \<le> length (completion_prefix cands))"
proof -
  obtain c cs where cands: "cands = c # cs"
    using assms by (cases cands) auto
  have eq: "completion_prefix cands = shorten_prefix c cs"
    using completion_prefix_nonempty [OF assms] cands by simp
  have "\<forall>d \<in> set cands. prefix (completion_prefix cands) d"
    using shorten_prefix_sound [of c cs] eq cands by simp
  moreover have "\<forall>s. (\<forall>d \<in> set cands. prefix s d) \<longrightarrow>
           prefix s (completion_prefix cands) \<and> length s \<le> length (completion_prefix cands)"
  proof (intro allI impI)
    fix s
    assume "\<forall>d \<in> set cands. prefix s d"
    then have "prefix s (shorten_prefix c cs)"
      using shorten_prefix_longest [of s c cs] cands by simp
    then show "prefix s (completion_prefix cands) \<and> length s \<le> length (completion_prefix cands)"
      using eq by (simp add: prefix_length_le)
  qed
  ultimately show ?thesis
    by blast
qed

theorem completion_prefix_longest_common_witness:
  "completion_prefix [''light'', ''lime'', ''list''] = ''li''
   \<and> prefix (completion_prefix [''light'', ''lime'', ''list'']) ''light''
   \<and> prefix (completion_prefix [''light'', ''lime'', ''list'']) ''lime''
   \<and> prefix (completion_prefix [''light'', ''lime'', ''list'']) ''list''
   \<and> prefix ''l'' (completion_prefix [''light'', ''lime'', ''list''])
   \<and> length ''l'' \<le> length (completion_prefix [''light'', ''lime'', ''list''])"
proof -
  have v: "completion_prefix [''light'', ''lime'', ''list''] = ''li''"
    by code_simp
  have l: "\<forall>c \<in> set [''light'', ''lime'', ''list'']. prefix ''l'' c"
    by simp
  note t = completion_prefix_longest_common [of "[''light'', ''lime'', ''list'']"]
  have a: "\<forall>c \<in> set [''light'', ''lime'', ''list''].
             prefix (completion_prefix [''light'', ''lime'', ''list'']) c"
    using t by simp
  have b: "prefix ''l'' (completion_prefix [''light'', ''lime'', ''list''])
           \<and> length ''l'' \<le> length (completion_prefix [''light'', ''lime'', ''list''])"
    using t l by blast
  show ?thesis
    using v a b by simp
qed

section \<open>The registry\<close>

lemma string_less_irrefl: "\<not> string_less x x"
  by (induction x) simp_all

lemma string_less_trans:
  "string_less x y \<Longrightarrow> string_less y z \<Longrightarrow> string_less x z"
proof (induction x y arbitrary: z rule: string_less.induct)
  case 1
  then show ?case by simp
next
  case (2 y ys)
  then show ?case by (cases z) simp_all
next
  case (3 x xs)
  then show ?case by simp
next
  case (4 x xs y ys)
  then show ?case
    by (cases z) (auto split: if_splits)
qed

lemma string_less_total: "x \<noteq> y \<Longrightarrow> string_less x y \<or> string_less y x"
proof (induction x y rule: string_less.induct)
  case (4 x xs y ys)
  show ?case
  proof (cases "x = y")
    case True
    then show ?thesis using 4 by simp
  next
    case False
    then have "(of_char x :: nat) \<noteq> of_char y"
      by simp
    then have "(of_char x :: nat) < of_char y \<or> (of_char y :: nat) < of_char x"
      using nat_neq_iff by blast
    then show ?thesis
      by auto
  qed
qed simp_all

lemma map_find_assign:
  "map_find (map_assign k v m) k' = (if k' = k then Some v else map_find m k')"
  by (induction m) auto

lemma map_assign_others:
  "filter (\<lambda>entry. fst entry \<noteq> k) (map_assign k v m) = filter (\<lambda>entry. fst entry \<noteq> k) m"
  by (induction m) auto

lemma map_assign_keys: "fst ` set (map_assign k v m) = insert k (fst ` set m)"
proof (induction m)
  case Nil
  show ?case by simp
next
  case (Cons e m)
  obtain k' v' where e: "e = (k', v')"
    by (cases e)
  show ?case
    using Cons.IH by (simp add: e insert_commute)
qed

lemma map_ordered_assign:
  "map_ordered m \<Longrightarrow> map_ordered (map_assign k v m)"
proof (induction m)
  case Nil
  then show ?case by (simp add: map_ordered_def)
next
  case (Cons e m)
  obtain k' v' where e: "e = (k', v')"
    by (cases e)
  have tail: "map_ordered m" and above: "\<forall>x \<in> set (map fst m). string_less k' x"
    using Cons.prems by (simp_all add: map_ordered_def e)
  show ?case
  proof (cases "k = k'")
    case True
    then show ?thesis
      using Cons.prems by (simp add: map_ordered_def e)
  next
    case False
    show ?thesis
    proof (cases "string_less k k'")
      case True
      then have "\<forall>x \<in> set (map fst m). string_less k x"
        using above string_less_trans by blast
      then show ?thesis
        using True False Cons.prems by (simp add: map_ordered_def e)
    next
      case nl: False
      then have "string_less k' k"
        using False string_less_total by blast
      then have "\<forall>x \<in> fst ` set (map_assign k v m). string_less k' x"
        using above by (simp add: map_assign_keys)
      then have "\<forall>x \<in> set (map fst (map_assign k v m)). string_less k' x"
        by simp
      moreover have "map_ordered (map_assign k v m)"
        using Cons.IH tail by simp
      ultimately show ?thesis
        using False nl by (simp add: map_ordered_def e)
    qed
  qed
qed

lemma map_ordered_distinct: "map_ordered m \<Longrightarrow> distinct (map fst m)"
proof (induction m)
  case Nil
  show ?case by simp
next
  case (Cons e m)
  have above: "\<forall>x \<in> set (map fst m). string_less (fst e) x" and tail: "map_ordered m"
    using Cons.prems by (simp_all add: map_ordered_def)
  have "fst e \<notin> set (map fst m)"
  proof
    assume "fst e \<in> set (map fst m)"
    then have "string_less (fst e) (fst e)"
      using above by blast
    then show False
      by (simp add: string_less_irrefl)
  qed
  then show ?case
    using Cons.IH tail by simp
qed

lemma distinct_key_once:
  "distinct (map fst m) \<Longrightarrow> k \<in> set (map fst m) \<Longrightarrow>
   length (filter (\<lambda>entry. fst entry = k) m) = 1"
proof (induction m)
  case Nil
  then show ?case by simp
next
  case (Cons e m)
  show ?case
  proof (cases "fst e = k")
    case True
    then have "k \<notin> set (map fst m)"
      using Cons.prems by auto
    then have "filter (\<lambda>entry. fst entry = k) m = []"
      by (auto simp: filter_empty_conv)
    then show ?thesis
      using True by simp
  next
    case False
    then show ?thesis
      using Cons by auto
  qed
qed

lemma map_assign_once:
  assumes "map_ordered m"
  shows "length (filter (\<lambda>entry. fst entry = k) (map_assign k v m)) = 1"
proof -
  have "map_ordered (map_assign k v m)"
    using assms by (rule map_ordered_assign)
  then have "distinct (map fst (map_assign k v m))"
    by (rule map_ordered_distinct)
  moreover have "k \<in> set (map fst (map_assign k v m))"
    using map_assign_keys [of k v m] by simp
  ultimately show ?thesis
    by (rule distinct_key_once)
qed

text \<open>
  C8. Registering a name twice in a registry (a map with ascending keys) leaves exactly one
  entry with that name; looking the name up gives the description, handler, completer and
  validator of the second registration; the entries with other names are the same as
  before, and so is every lookup of another name. Registration returns the registry only:
  there is no error to report.
\<close>

theorem registerCommand_twice:
  assumes "map_ordered commands"
  shows "map_find (registerCommand (registerCommand commands name d1 h1 c1 v1) name d2 h2 c2 v2)
           name
         = Some \<lparr>description = d2, handler = h2, completer_opt = c2, validator_opt = v2\<rparr>
    \<and> length (filter (\<lambda>entry. fst entry = name)
          (registerCommand (registerCommand commands name d1 h1 c1 v1) name d2 h2 c2 v2)) = 1
    \<and> filter (\<lambda>entry. fst entry \<noteq> name)
          (registerCommand (registerCommand commands name d1 h1 c1 v1) name d2 h2 c2 v2)
       = filter (\<lambda>entry. fst entry \<noteq> name) commands
    \<and> (\<forall>other. other \<noteq> name \<longrightarrow>
          map_find (registerCommand (registerCommand commands name d1 h1 c1 v1)
                      name d2 h2 c2 v2) other
          = map_find commands other)
    \<and> map_ordered (registerCommand (registerCommand commands name d1 h1 c1 v1) name d2 h2 c2 v2)"
proof -
  have o1: "map_ordered (registerCommand commands name d1 h1 c1 v1)"
    using assms by (simp add: registerCommand_def map_ordered_assign)
  have "length (filter (\<lambda>entry. fst entry = name)
          (registerCommand (registerCommand commands name d1 h1 c1 v1) name d2 h2 c2 v2)) = 1"
    unfolding registerCommand_def [of "registerCommand commands name d1 h1 c1 v1"]
    using o1 by (rule map_assign_once)
  moreover have "map_ordered
      (registerCommand (registerCommand commands name d1 h1 c1 v1) name d2 h2 c2 v2)"
    unfolding registerCommand_def [of "registerCommand commands name d1 h1 c1 v1"]
    using o1 by (rule map_ordered_assign)
  ultimately show ?thesis
    by (simp add: registerCommand_def map_find_assign map_assign_others)
qed

lemma builtin_commands_keys:
  "map fst (builtin_commands no_handler no_handler no_handler) =
     [''clear'', ''exit'', ''help'', ''quit'']"
  by (simp add: builtin_commands_def registerCommand_def)

lemma builtin_commands_ordered:
  "map_ordered (builtin_commands no_handler no_handler no_handler)"
  by (simp add: map_ordered_def builtin_commands_keys)

theorem registerCommand_twice_witness:
  "map_find
     (registerCommand
        (registerCommand (builtin_commands no_handler no_handler no_handler)
           ''set'' ''first'' no_handler None None)
        ''set'' ''Set configuration'' no_handler (Some (completer scenario_tree))
        (Some (validator scenario_tree)))
     ''set''
   = Some \<lparr>description = ''Set configuration'', handler = no_handler,
        completer_opt = Some (completer scenario_tree),
        validator_opt = Some (validator scenario_tree)\<rparr>
   \<and> length (filter (\<lambda>entry. fst entry = ''set'')
       (registerCommand
          (registerCommand (builtin_commands no_handler no_handler no_handler)
             ''set'' ''first'' no_handler None None)
          ''set'' ''Set configuration'' no_handler (Some (completer scenario_tree))
          (Some (validator scenario_tree)))) = 1
   \<and> map_find
       (registerCommand
          (registerCommand (builtin_commands no_handler no_handler no_handler)
             ''set'' ''first'' no_handler None None)
          ''set'' ''Set configuration'' no_handler (Some (completer scenario_tree))
          (Some (validator scenario_tree)))
       ''help''
     = map_find (builtin_commands no_handler no_handler no_handler) ''help''"
proof -
  note t = registerCommand_twice [OF builtin_commands_ordered, of "''set''" "''first''"
      no_handler None None "''Set configuration''" no_handler
      "Some (completer scenario_tree)" "Some (validator scenario_tree)"]
  have ne: "''help'' \<noteq> ''set''"
    by simp
  note a = t [THEN conjunct1]
  note b = t [THEN conjunct2, THEN conjunct1]
  note c = t [THEN conjunct2, THEN conjunct2, THEN conjunct2, THEN conjunct1, THEN spec,
      THEN mp, OF ne]
  show ?thesis
    by (intro conjI) (rule a, rule b, rule c)
qed

section \<open>The completer\<close>

lemma size_to_int_le: "size_to_int n \<le> int n"
proof -
  have "(int n + 2 ^ 31) mod 2 ^ 32 \<le> int n + 2 ^ 31"
    by (rule zmod_le_nonneg_dividend) simp
  then show ?thesis
    by (simp add: size_to_int_def)
qed

lemma size_to_int_small: "n < 2 ^ 31 \<Longrightarrow> size_to_int n = int n"
proof -
  assume "n < 2 ^ 31"
  then have "int n < 2 ^ 31"
    by (metis of_nat_less_iff of_nat_numeral of_nat_power)
  then have "(int n + 2 ^ 31) mod 2 ^ 32 = int n + 2 ^ 31"
    by (intro mod_pos_pos_trivial) simp_all
  then show ?thesis
    by (simp add: size_to_int_def)
qed

text \<open>The walk reads \<^verbatim>\<open>allTokens[i]\<close> only inside the vector.\<close>

lemma completer_read_in_range:
  assumes "0 \<le> i" and "\<not> size_to_int (length allTokens) \<le> i"
  shows "nat i < length allTokens"
  using assms size_to_int_le [of "length allTokens"] by linarith

lemma str_find_prefix: "str_find candidate inp = Some 0 \<longleftrightarrow> prefix inp candidate"
proof -
  have tk: "take (length inp) candidate = inp \<longleftrightarrow> prefix inp candidate"
  proof
    assume "take (length inp) candidate = inp"
    then show "prefix inp candidate"
      using take_is_prefix [of "length inp" candidate] by simp
  next
    assume "prefix inp candidate"
    then obtain zs where "candidate = inp @ zs"
      by (auto simp: prefix_def)
    then show "take (length inp) candidate = inp"
      by simp
  qed
  show ?thesis
  proof (cases candidate)
    case Nil
    then show ?thesis by auto
  next
    case (Cons c cs)
    have "str_find (c # cs) inp = Some 0 \<longleftrightarrow> take (length inp) (c # cs) = inp"
      by (cases "str_find cs inp") simp_all
    then show ?thesis
      using tk Cons by simp
  qed
qed

lemma node_at_append:
  "node_at current (xs @ ys) =
     (case node_at current xs of None \<Rightarrow> None | Some n \<Rightarrow> node_at n ys)"
  by (induction xs arbitrary: current) (simp_all split: option.splits)

lemma completer_loop_unfold:
  "completer_loop allTokens paramIndex i current =
     (if i < paramIndex then
        (if size_to_int (length allTokens) \<le> i then None
         else (case map_find (children current) (allTokens ! nat i) of
                 None \<Rightarrow> None
               | Some child \<Rightarrow> completer_loop allTokens paramIndex (i + 1) child))
      else Some current)"
  by (rule completer_loop.simps)

lemma completer_loop_path:
  "completer_loop toks p i current = Some n \<Longrightarrow> 0 \<le> i \<Longrightarrow>
   node_at current (take (nat p - nat i) (drop (nat i) toks)) = Some n
   \<and> (i < p \<longrightarrow> nat p \<le> length toks)"
proof (induction toks p i current rule: completer_loop.induct)
  case (1 toks p i current)
  show ?case
  proof (cases "i < p")
    case False
    then have "completer_loop toks p i current = Some current"
      by (subst completer_loop_unfold) simp
    then have "n = current"
      using "1.prems" by simp
    moreover have "nat p - nat i = 0"
      using False by simp
    ultimately show ?thesis
      using False by simp
  next
    case True
    have inb: "\<not> size_to_int (length toks) \<le> i"
      using "1.prems"(1) True by (subst (asm) completer_loop_unfold) (simp split: if_splits)
    then have "i < int (length toks)"
      using size_to_int_le [of "length toks"] by linarith
    then have il: "nat i < length toks"
      using "1.prems"(2) by linarith
    obtain child where ch: "map_find (children current) (toks ! nat i) = Some child"
      and rec: "completer_loop toks p (i + 1) child = Some n"
      using "1.prems"(1) True inb
      by (subst (asm) completer_loop_unfold) (simp split: option.splits)
    have ih: "node_at child (take (nat p - nat (i + 1)) (drop (nat (i + 1)) toks)) = Some n
       \<and> (i + 1 < p \<longrightarrow> nat p \<le> length toks)"
      using "1.IH" [OF True inb ch rec] "1.prems"(2) by simp
    have dr: "drop (nat i) toks = toks ! nat i # drop (Suc (nat i)) toks"
      using il by (rule Cons_nth_drop_Suc [symmetric])
    have si: "nat (i + 1) = Suc (nat i)"
      using "1.prems"(2) by simp
    have pi: "nat p - nat i = Suc (nat p - Suc (nat i))"
      using True "1.prems"(2) by linarith
    have "node_at current (take (nat p - nat i) (drop (nat i) toks)) = Some n"
      using ih ch by (simp add: dr pi si)
    moreover have "nat p \<le> length toks"
    proof (cases "i + 1 < p")
      case True
      then show ?thesis using ih by simp
    next
      case False
      then show ?thesis using True il by linarith
    qed
    ultimately show ?thesis
      by simp
  qed
qed

lemma completer_nonempty:
  assumes "completer root toks p inp \<noteq> []"
  shows "1 \<le> p \<and> (\<exists>current. completer_loop toks p 1 root = Some current
      \<and> completer root toks p inp = filter (prefix inp) (candidates current))"
proof -
  have p: "1 \<le> p"
    using assms by (auto simp: completer_def split: if_splits)
  obtain current where c: "completer_loop toks p 1 root = Some current"
    using assms p by (cases "completer_loop toks p 1 root") (auto simp: completer_def)
  have "completer root toks p inp = filter (prefix inp) (candidates current)"
    using p c by (simp add: completer_def str_find_prefix)
  then show ?thesis
    using p c by blast
qed

text \<open>
  C5. Let the parameter index be at least 1 and let some position \<open>i\<close> from 1 to the index
  minus 1 be past the end of the tokens, or carry a token that is no key among the children
  of the node that the tokens before it lead to. Then the completer returns the empty list
  (it is a total function: it returns, and has no failure to report).
\<close>

theorem completer_divergent_path:
  assumes "1 \<le> i" and "i < paramIndex"
    and "int (length allTokens) \<le> i
       \<or> (\<exists>current. node_at root (take (nat i - 1) (drop 1 allTokens)) = Some current
             \<and> map_find (children current) (allTokens ! nat i) = None)"
  shows "completer root allTokens paramIndex inp = []"
proof (rule ccontr)
  assume "completer root allTokens paramIndex inp \<noteq> []"
  then obtain last_node where "completer_loop allTokens paramIndex 1 root = Some last_node"
    using completer_nonempty by blast
  then have path: "node_at root (take (nat paramIndex - 1) (drop 1 allTokens)) = Some last_node"
    and len: "nat paramIndex \<le> length allTokens"
    using completer_loop_path [of allTokens paramIndex 1 root last_node] assms(1,2)
    by simp_all
  have il: "nat i < length allTokens"
    using len assms(1,2) by linarith
  then obtain current
    where cur: "node_at root (take (nat i - 1) (drop 1 allTokens)) = Some current"
      and miss: "map_find (children current) (allTokens ! nat i) = None"
    using assms(3) by auto
  let ?xs = "drop 1 allTokens"
  have split: "nat paramIndex - 1 = (nat i - 1) + Suc (nat paramIndex - 1 - nat i)"
    using assms(1,2) by linarith
  have ix: "nat i - 1 < length ?xs"
    using il assms(1) by simp
  have nth: "?xs ! (nat i - 1) = allTokens ! nat i"
    using il assms(1) by simp
  have "take (nat paramIndex - 1) ?xs =
          take (nat i - 1) ?xs @ take (Suc (nat paramIndex - 1 - nat i)) (drop (nat i - 1) ?xs)"
    by (subst split) (rule take_add)
  also have "drop (nat i - 1) ?xs = allTokens ! nat i # drop (Suc (nat i - 1)) ?xs"
    using Cons_nth_drop_Suc [OF ix] nth by simp
  finally have "take (nat paramIndex - 1) ?xs =
      take (nat i - 1) ?xs
      @ allTokens ! nat i # take (nat paramIndex - 1 - nat i) (drop (Suc (nat i - 1)) ?xs)"
    by simp
  then have "node_at root (take (nat paramIndex - 1) ?xs) = None"
    using cur miss by (simp add: node_at_append)
  then show False
    using path by simp
qed

theorem completer_divergent_path_witness:
  "completer scenario_tree [''set'', ''device9'', ''li''] 2 ''li'' = []
   \<and> completer scenario_tree [''set''] 3 [] = []"
proof -
  have a: "node_at scenario_tree (take (nat 1 - 1) (drop 1 [''set'', ''device9'', ''li''])) =
             Some scenario_tree
           \<and> map_find (children scenario_tree) ([''set'', ''device9'', ''li''] ! nat 1) = None"
    by (simp add: scenario_tree_eq)
  have "completer scenario_tree [''set'', ''device9'', ''li''] 2 ''li'' = []"
    using completer_divergent_path [of 1 2 "[''set'', ''device9'', ''li'']" scenario_tree] a
    by simp
  moreover have "completer scenario_tree [''set''] 3 [] = []"
    using completer_divergent_path [of 1 3 "[''set'']" scenario_tree] by simp
  ultimately show ?thesis
    by simp
qed

text \<open>
  C6. The completer returns the empty list when the parameter index is below 1. Every
  string it returns begins with the current input. When it returns anything, the tokens from
  position 1 to the index minus 1 lead to a node of the tree, and the result is the
  candidates of that node that begin with the input, in the order of their declaration:
  each returned string is a candidate of that node and the result is a subsequence of its
  candidates.
\<close>

theorem completer_prefix_closed:
  "(paramIndex < 1 \<longrightarrow> completer root allTokens paramIndex inp = [])
   \<and> (\<forall>s \<in> set (completer root allTokens paramIndex inp). prefix inp s)
   \<and> (completer root allTokens paramIndex inp \<noteq> [] \<longrightarrow>
        (\<exists>current.
           node_at root (take (nat paramIndex - 1) (drop 1 allTokens)) = Some current
           \<and> set (completer root allTokens paramIndex inp) \<subseteq> set (candidates current)
           \<and> subseq (completer root allTokens paramIndex inp) (candidates current)
           \<and> completer root allTokens paramIndex inp =
               filter (prefix inp) (candidates current)))"
proof (intro conjI impI ballI)
  assume "paramIndex < 1"
  then show "completer root allTokens paramIndex inp = []"
    by (simp add: completer_def)
next
  fix s
  assume s: "s \<in> set (completer root allTokens paramIndex inp)"
  then have "completer root allTokens paramIndex inp \<noteq> []"
    by auto
  then obtain current where
    "completer root allTokens paramIndex inp = filter (prefix inp) (candidates current)"
    using completer_nonempty by blast
  then show "prefix inp s"
    using s by simp
next
  assume "completer root allTokens paramIndex inp \<noteq> []"
  then obtain current where p: "1 \<le> paramIndex"
    and loop: "completer_loop allTokens paramIndex 1 root = Some current"
    and eq: "completer root allTokens paramIndex inp = filter (prefix inp) (candidates current)"
    using completer_nonempty by blast
  have "node_at root (take (nat paramIndex - 1) (drop 1 allTokens)) = Some current"
    using completer_loop_path [OF loop] by simp
  moreover have "set (completer root allTokens paramIndex inp) \<subseteq> set (candidates current)"
    using eq by auto
  moreover have "subseq (completer root allTokens paramIndex inp) (candidates current)"
    using eq by simp
  ultimately show "\<exists>current.
           node_at root (take (nat paramIndex - 1) (drop 1 allTokens)) = Some current
           \<and> set (completer root allTokens paramIndex inp) \<subseteq> set (candidates current)
           \<and> subseq (completer root allTokens paramIndex inp) (candidates current)
           \<and> completer root allTokens paramIndex inp =
               filter (prefix inp) (candidates current)"
    using eq by blast
qed

lemma completer_device1:
  "completer scenario_tree [''set'', ''device1'', []] 2 [] = [''light'', ''sound'']"
  by code_simp

lemma completer_device1_s:
  "completer scenario_tree [''set'', ''device1'', ''s''] 2 ''s'' = [''sound'']"
  by code_simp

theorem completer_prefix_closed_witness:
  "completer scenario_tree [''set'', ''device1'', ''s''] 2 ''s'' = [''sound'']
   \<and> prefix ''s'' ''sound''
   \<and> (\<exists>current. node_at scenario_tree [''device1''] = Some current
         \<and> [''sound''] = filter (prefix ''s'') (candidates current))
   \<and> completer scenario_tree [''set'', ''device1'', ''s''] 0 ''s'' = []"
  using completer_prefix_closed [of 2 scenario_tree "[''set'', ''device1'', ''s'']" "''s''"]
    completer_prefix_closed [of 0 scenario_tree "[''set'', ''device1'', ''s'']" "''s''"]
    completer_device1_s
  by auto

lemma completer_loop_node_at:
  "0 \<le> i \<Longrightarrow> nat p \<le> length toks \<Longrightarrow> length toks < 2 ^ 31 \<Longrightarrow>
   completer_loop toks p i current = node_at current (take (nat p - nat i) (drop (nat i) toks))"
proof (induction toks p i current rule: completer_loop.induct)
  case (1 toks p i current)
  show ?case
  proof (cases "i < p")
    case False
    then have "completer_loop toks p i current = Some current"
      by (subst completer_loop_unfold) simp
    moreover have "nat p - nat i = 0"
      using False by simp
    ultimately show ?thesis
      by simp
  next
    case True
    have il: "nat i < length toks"
      using True "1.prems"(1,2) by linarith
    then have inb: "\<not> size_to_int (length toks) \<le> i"
      using size_to_int_small [OF "1.prems"(3)] "1.prems"(1) by linarith
    have dr: "drop (nat i) toks = toks ! nat i # drop (Suc (nat i)) toks"
      using il by (rule Cons_nth_drop_Suc [symmetric])
    have si: "nat (i + 1) = Suc (nat i)"
      using "1.prems"(1) by simp
    have pi: "nat p - nat i = Suc (nat p - Suc (nat i))"
      using True "1.prems"(1) by linarith
    show ?thesis
    proof (cases "map_find (children current) (toks ! nat i)")
      case None
      then have "completer_loop toks p i current = None"
        using True inb by (subst completer_loop_unfold) simp
      then show ?thesis
        using None by (simp add: dr pi)
    next
      case (Some child)
      then have "completer_loop toks p i current = completer_loop toks p (i + 1) child"
        using True inb by (subst completer_loop_unfold) simp
      also have "\<dots> = node_at child (take (nat p - nat (i + 1)) (drop (nat (i + 1)) toks))"
        using "1.IH" [OF True inb Some] "1.prems" by simp
      finally show ?thesis
        using Some by (simp add: dr pi si)
    qed
  qed
qed

lemma completer_complete:
  assumes "1 \<le> paramIndex" and "nat paramIndex \<le> length allTokens"
    and "length allTokens < 2 ^ 31"
  shows "completer root allTokens paramIndex inp =
     (case node_at root (take (nat paramIndex - 1) (drop 1 allTokens)) of
        None \<Rightarrow> []
      | Some current \<Rightarrow> filter (prefix inp) (candidates current))"
proof -
  have "completer_loop allTokens paramIndex 1 root =
          node_at root (take (nat paramIndex - 1) (drop 1 allTokens))"
    using completer_loop_node_at [of 1 paramIndex allTokens root] assms by simp
  then show ?thesis
    using assms(1) by (simp add: completer_def str_find_prefix split: option.splits)
qed

section \<open>A number that is a leaf value\<close>

text \<open>
  What one iteration of the scan does on a node without candidates whose numeric check
  passes: with a child named by the argument it goes on at that child; without one it marks
  the argument as a leaf value and goes on with the next argument at the same node.
\<close>

lemma validator_loop_numeric_descend:
  assumes "candidates current = []" and "numeric_error current i value = None"
    and "map_find (children current) value = Some child"
  shows "validator_loop n i (value # rest) current leaf =
           validator_loop n (i + 1) rest child False"
proof -
  have "children current \<noteq> []"
    using assms(3) by (cases "children current") simp_all
  then show ?thesis
    using assms by simp
qed

lemma validator_loop_numeric_leaf:
  assumes "candidates current = []" and "numeric_error current i value = None"
    and "map_find (children current) value = None"
  shows "validator_loop n i (value # rest) current leaf =
           validator_loop n (i + 1) rest current True"
  using assms by simp

text \<open>
  C2. On the example tree, after the number 45 has passed the check of the \<^verbatim>\<open>timeout\<close>
  node and has no child there, the scan does not stop: the next argument is checked against
  the same node. A further \<^verbatim>\<open>abc\<close> is reported as an invalid number at position 3, a
  further 700 as out of range at position 3, and a further 46 passes.
\<close>

theorem validator_scan_continues_after_numeric_leaf:
  "validator scenario_tree [''set'', ''timeout'', ''45'', ''abc''] =
     ''Invalid number '' @ [CHR 0x27] @ ''abc'' @ [CHR 0x27] @ '' at position 3''
   \<and> validator scenario_tree [''set'', ''timeout'', ''45'', ''700''] =
     ''Number out of range at position 3. Expected: 1 to 600''
   \<and> validator scenario_tree [''set'', ''timeout'', ''45'', ''46''] = []"
  by code_simp

section \<open>What parseLong accepts\<close>

text \<open>
  The tokens that \<^verbatim>\<open>parseLong\<close> accepts are exactly those whose C string is white space,
  an optional sign and at least one digit, denoting a value in the range of \<^verbatim>\<open>long\<close>.
  So an empty token, a token that does not end in a digit (trailing characters, trailing
  white space) and a value out of range are rejected; leading white space is not.
\<close>

lemma sint_long_of_int:
  "LONG_MIN \<le> v \<Longrightarrow> v \<le> LONG_MAX \<Longrightarrow> sint (word_of_int v :: long) = v"
  by (simp add: LONG_MIN_def LONG_MAX_def sint_sbintrunc' signed_take_bit_int_eq_self)

lemma parseLong_Some:
  assumes "parseLong value = Some w"
  shows "\<exists>ws sg ds. c_str value = ws @ sg @ ds
      \<and> (\<forall>c \<in> set ws. isspace c)
      \<and> (sg = [] \<or> sg = ''+'' \<or> sg = ''-'')
      \<and> ds \<noteq> [] \<and> (\<forall>c \<in> set ds. isdigit c)
      \<and> sint w = (if sg = ''-'' then - digits_value 0 ds else digits_value 0 ds)
      \<and> LONG_MIN \<le> sint w \<and> sint w \<le> LONG_MAX"
proof -
  define s where "s = c_str value"
  define ws where "ws = takeWhile isspace s"
  define r1 where "r1 = dropWhile isspace s"
  define sign :: nat where
    "sign = (if r1 \<noteq> [] \<and> (hd r1 = CHR ''-'' \<or> hd r1 = CHR ''+'') then 1 else 0)"
  define neg where "neg = (r1 \<noteq> [] \<and> hd r1 = CHR ''-'')"
  define ds where "ds = takeWhile isdigit (drop sign r1)"
  define v where "v = (if neg then - digits_value 0 ds else digits_value 0 ds)"
  have st: "strtol s =
     (if ds = [] then (0, False, 0)
      else if LONG_MAX < v then (word_of_int LONG_MAX, True, length ws + sign + length ds)
      else if v < LONG_MIN then (word_of_int LONG_MIN, True, length ws + sign + length ds)
      else (word_of_int v, False, length ws + sign + length ds))"
    unfolding strtol_def Let_def ws_def r1_def sign_def neg_def ds_def v_def by simp
  have ok: "ds \<noteq> [] \<and> \<not> LONG_MAX < v \<and> \<not> v < LONG_MIN
      \<and> \<not> length ws + sign + length ds < length s \<and> w = word_of_int v"
    using assms st unfolding parseLong_def s_def [symmetric]
    by (auto split: if_splits)
  have s_split: "s = ws @ r1"
    by (simp add: ws_def r1_def)
  have r1_split: "r1 = take sign r1 @ drop sign r1"
    by simp
  have d_split: "drop sign r1 = ds @ dropWhile isdigit (drop sign r1)"
    by (simp add: ds_def)
  have sign_le: "sign \<le> length r1"
    by (cases r1) (simp_all add: sign_def)
  have "length s = length ws + sign + length ds + length (dropWhile isdigit (drop sign r1))"
  proof -
    have "length s = length ws + length r1"
      using s_split by simp
    also have "length r1 = sign + length (drop sign r1)"
      using sign_le by simp
    also have "length (drop sign r1) = length ds + length (dropWhile isdigit (drop sign r1))"
      by (subst d_split) simp
    finally show ?thesis
      by simp
  qed
  then have "length (dropWhile isdigit (drop sign r1)) = 0"
    using ok by linarith
  then have "\<forall>c \<in> set (drop sign r1). isdigit c"
    by (simp add: dropWhile_eq_Nil_conv)
  then have "takeWhile isdigit (drop sign r1) = drop sign r1"
    by simp
  then have d_eq: "drop sign r1 = ds"
    unfolding ds_def by (rule sym)
  have s_eq: "s = ws @ take sign r1 @ ds"
    using s_split r1_split d_eq by simp
  have sg: "take sign r1 = (if sign = 0 then [] else if neg then ''-'' else ''+'')"
    by (cases r1) (auto simp: sign_def neg_def)
  have sg_cases: "take sign r1 = [] \<or> take sign r1 = ''+'' \<or> take sign r1 = ''-''"
    using sg by auto
  have neg_iff: "neg \<longleftrightarrow> take sign r1 = ''-''"
    by (cases r1) (auto simp: sign_def neg_def)
  have wsp: "\<forall>c \<in> set ws. isspace c"
    unfolding ws_def by (auto dest: set_takeWhileD)
  have dig: "\<forall>c \<in> set ds. isdigit c"
    unfolding ds_def by (auto dest: set_takeWhileD)
  have sw: "sint w = v"
    using ok by (simp add: sint_long_of_int)
  have "c_str value = ws @ take sign r1 @ ds
      \<and> (\<forall>c \<in> set ws. isspace c)
      \<and> (take sign r1 = [] \<or> take sign r1 = ''+'' \<or> take sign r1 = ''-'')
      \<and> ds \<noteq> [] \<and> (\<forall>c \<in> set ds. isdigit c)
      \<and> sint w = (if take sign r1 = ''-'' then - digits_value 0 ds else digits_value 0 ds)
      \<and> LONG_MIN \<le> sint w \<and> sint w \<le> LONG_MAX"
    using s_eq sg_cases wsp dig sw ok neg_iff by (simp add: s_def v_def)
  then show ?thesis
    by blast
qed

lemma parseLong_empty: "parseLong [] = None"
  by (simp add: parseLong_def)

lemma parseLong_last_digit:
  assumes "parseLong value = Some w"
  shows "c_str value \<noteq> [] \<and> isdigit (last (c_str value))"
proof -
  obtain ws sg ds where "c_str value = ws @ sg @ ds" and "ds \<noteq> []"
    and "\<forall>c \<in> set ds. isdigit c"
    using parseLong_Some [OF assms] by blast
  then show ?thesis
    by simp
qed

lemma parseLong_trailing:
  assumes "\<not> isdigit c" and "c \<noteq> CHR 0x00" and "CHR 0x00 \<notin> set pre"
  shows "parseLong (pre @ [c]) = None"
proof (rule ccontr)
  assume "parseLong (pre @ [c]) \<noteq> None"
  then obtain w where "parseLong (pre @ [c]) = Some w"
    by auto
  then have "isdigit (last (c_str (pre @ [c])))"
    using parseLong_last_digit by blast
  moreover have "c_str (pre @ [c]) = pre @ [c]"
    using assms(2,3) by (auto simp: c_str_def)
  ultimately show False
    using assms(1) by simp
qed

lemma isspace_not_isdigit: "isspace c \<Longrightarrow> \<not> isdigit c"
  by (auto simp: isspace_def isdigit_def)

lemma isdigit_not_other:
  "isdigit c \<Longrightarrow> \<not> isspace c \<and> c \<noteq> CHR ''-'' \<and> c \<noteq> CHR ''+'' \<and> c \<noteq> CHR 0x00"
  by (auto simp: isspace_def isdigit_def)

lemma isspace_not_NUL: "isspace c \<Longrightarrow> c \<noteq> CHR 0x00"
  by (auto simp: isspace_def)

lemma sign_not_isspace: "\<not> isspace CHR ''-''" "\<not> isspace CHR ''+''"
  by (simp_all add: isspace_def)

lemma sign_not_isdigit: "\<not> isdigit CHR ''-''" "\<not> isdigit CHR ''+''"
  by (simp_all add: isdigit_def)

lemma parseLong_wellformed:
  assumes ws: "\<forall>c \<in> set ws. isspace c"
    and sg: "sg = [] \<or> sg = ''+'' \<or> sg = ''-''"
    and ds: "ds \<noteq> []" "\<forall>c \<in> set ds. isdigit c"
  shows "parseLong (ws @ sg @ ds) =
     (let v = (if sg = ''-'' then - digits_value 0 ds else digits_value 0 ds)
      in if LONG_MAX < v \<or> v < LONG_MIN then None else Some (word_of_int v))"
proof -
  let ?s = "ws @ sg @ ds"
  obtain d ds' where dcons: "ds = d # ds'"
    using ds(1) by (cases ds) auto
  have d: "isdigit d"
    using ds(2) dcons by simp
  have nonul: "\<forall>c \<in> set ?s. c \<noteq> CHR 0x00"
    using ws sg ds(2) isdigit_not_other isspace_not_NUL by auto
  then have cs: "c_str ?s = ?s"
    by (simp add: c_str_def)
  have hd_ns: "\<not> isspace (hd (sg @ ds))"
    using sg d dcons isdigit_not_other sign_not_isspace by auto
  have sgds: "sg @ ds \<noteq> []"
    using ds(1) by simp
  have tw0: "takeWhile isspace (sg @ ds) = []"
    using hd_ns sgds by (cases "sg @ ds") simp_all
  have dw0: "dropWhile isspace (sg @ ds) = sg @ ds"
    using hd_ns sgds by (cases "sg @ ds") simp_all
  have tw: "takeWhile isspace ?s = ws"
    using ws tw0 by (simp add: takeWhile_append2)
  have dw: "dropWhile isspace ?s = sg @ ds"
    using ws dw0 by (simp add: dropWhile_append2)
  have sign: "(if sg @ ds \<noteq> [] \<and> (hd (sg @ ds) = CHR ''-'' \<or> hd (sg @ ds) = CHR ''+'')
               then 1 else 0) = length sg"
    using sg d dcons isdigit_not_other by auto
  have neg: "(sg @ ds \<noteq> [] \<and> hd (sg @ ds) = CHR ''-'') \<longleftrightarrow> sg = ''-''"
    using sg d dcons isdigit_not_other by auto
  have twd: "takeWhile isdigit ds = ds"
    using ds(2) by simp
  have "strtol ?s =
     (let v = (if sg = ''-'' then - digits_value 0 ds else digits_value 0 ds)
      in if LONG_MAX < v then (word_of_int LONG_MAX, True, length ?s)
         else if v < LONG_MIN then (word_of_int LONG_MIN, True, length ?s)
         else (word_of_int v, False, length ?s))"
    unfolding strtol_def tw dw Let_def sign neg
    using ds(1) by (simp add: twd)
  then show ?thesis
    using ds(1) by (simp add: parseLong_def cs Let_def)
qed

text \<open>
  C3. \<^verbatim>\<open>parseLong\<close> accepts a token with leading white space: \<^verbatim>\<open>strtol\<close> skips it, and
  only what follows the digits is checked. On the example tree the argument made of a space
  and 45 passes validation at the \<^verbatim>\<open>timeout\<close> node.
\<close>

theorem parseLong_accepts_leading_space:
  "parseLong '' 45'' = Some 45
   \<and> parseLong ([CHR 0x09] @ ''45'') = Some 45
   \<and> validator scenario_tree [''set'', ''timeout'', '' 45''] = []"
  by code_simp

end
